theory Spec2Isabelle
  imports Main "HOL-Library.Monad_Syntax"
begin

section \<open>Data model (server/src/db/schema.ts, server/src/schema.ts)\<close>

text \<open>
  A \<open>Date\<close> is its number of milliseconds since the epoch. A nullable column is an
  \<open>option\<close>. The primary keys are \<open>serial\<close> columns: integers drawn from a sequence.
  The field \<open>id\<close> of a person is \<open>id_p\<close>, that of a relationship \<open>id_r\<close>, and likewise
  for \<open>created_at\<close>, since both tables have columns of these names.
\<close>

type_synonym timestamp = int

record Person =
  id_p :: int
  full_name :: string
  birth_date :: "timestamp option"
  death_date :: "timestamp option"
  photo_url :: "string option"
  created_at_p :: timestamp
  updated_at :: timestamp

record Relationship =
  id_r :: int
  parent_id :: int
  child_id :: int
  created_at_r :: timestamp

text \<open>\<open>PersonWithRelationships\<close>: the fields of a person, and two lists of persons.\<close>

record PersonWithRelationships = Person +
  parents :: "Person list"
  children :: "Person list"

text \<open>
  The database: the rows of the two tables in insertion order, and the next value of
  each \<open>serial\<close> sequence. A \<open>select\<close> without a \<open>where\<close> returns the rows of the table,
  one with a \<open>where\<close> the rows that satisfy it (\<open>filter\<close>); an \<open>insert\<close> appends a row
  whose id is the next value of the sequence; a \<open>delete\<close> keeps the rows that do not
  satisfy the condition.
\<close>

record db_state =
  people :: "Person list"
  relationships :: "Relationship list"
  people_seq :: int
  relationships_seq :: int

text \<open>The messages of the \<open>Error\<close>s that the handlers throw, one constructor each.\<close>

datatype error =
    SelfRelationship                \<comment> \<open>A person cannot be their own parent\<close>
  | ParentNotFound int              \<comment> \<open>Parent with ID n does not exist\<close>
  | ChildNotFound int               \<comment> \<open>Child with ID n does not exist\<close>
  | DuplicateRelationship           \<comment> \<open>Relationship already exists between these people\<close>
  | CircularRelationship            \<comment> \<open>Cannot create circular parent-child relationship\<close>
  | PersonNotFound int              \<comment> \<open>Person with id n not found\<close>
  | TreeChildNotFound int           \<comment> \<open>Child with id n not found\<close>
  | TreeParentNotFound int          \<comment> \<open>Parent with id n not found\<close>

text \<open>The inputs of the handlers. An optional field of the update input that is absent
  (\<open>undefined\<close>) is \<open>None\<close>; a nullable one that is present is \<open>Some\<close> of an option.\<close>

record CreatePersonInput =
  new_full_name :: string
  new_birth_date :: "timestamp option"
  new_death_date :: "timestamp option"
  new_photo_url :: "string option"

record CreateRelationshipInput =
  in_parent_id :: int
  in_child_id :: int

record UpdatePersonInput =
  upd_id :: int
  upd_full_name :: "string option"
  upd_birth_date :: "timestamp option option"
  upd_death_date :: "timestamp option option"
  upd_photo_url :: "string option option"

section \<open>Relationship handlers (server/src/handlers)\<close>

text \<open>\<open>createRelationship\<close>: \<open>now\<close> is the clock read by \<open>defaultNow()\<close>.\<close>

definition createRelationship ::
  "db_state \<Rightarrow> timestamp \<Rightarrow> CreateRelationshipInput \<Rightarrow> error + (Relationship \<times> db_state)" where
  "createRelationship db now input =
    (if in_parent_id input = in_child_id input then Inl SelfRelationship
     else
       let parent = filter (\<lambda>p. id_p p = in_parent_id input) (people db);
           child = filter (\<lambda>p. id_p p = in_child_id input) (people db)
       in
       if length parent = 0 then Inl (ParentNotFound (in_parent_id input))
       else if length child = 0 then Inl (ChildNotFound (in_child_id input))
       else
         let existingRelationship =
               filter (\<lambda>r. parent_id r = in_parent_id input \<and> child_id r = in_child_id input)
                 (relationships db)
         in
         if length existingRelationship > 0 then Inl DuplicateRelationship
         else
           let circularCheck =
                 filter (\<lambda>r. parent_id r = in_child_id input \<and> child_id r = in_parent_id input)
                   (relationships db)
           in
           if length circularCheck > 0 then Inl CircularRelationship
           else
             let row = \<lparr>id_r = relationships_seq db,
                        parent_id = in_parent_id input,
                        child_id = in_child_id input,
                        created_at_r = now\<rparr>
             in Inr (row, db\<lparr>relationships := relationships db @ [row],
                             relationships_seq := relationships_seq db + 1\<rparr>))"

text \<open>\<open>deleteRelationship\<close>: \<open>rowCount\<close> is the number of rows the \<open>delete\<close> removed.\<close>

definition deleteRelationship ::
  "db_state \<Rightarrow> CreateRelationshipInput \<Rightarrow> error + (bool \<times> db_state)" where
  "deleteRelationship db input =
    (let matching = (\<lambda>r. parent_id r = in_parent_id input \<and> child_id r = in_child_id input);
         rowCount = Some (length (filter matching (relationships db)));
         db' = db\<lparr>relationships := filter (\<lambda>r. \<not> matching r) (relationships db)\<rparr>;
         success = (rowCount \<noteq> None \<and> the rowCount > 0)
     in Inr (success, db'))"

section \<open>Person handlers (server/src/handlers)\<close>

text \<open>\<open>createPerson\<close>: the insert fills \<open>id\<close> from the sequence and both \<open>created_at\<close> and
  \<open>updated_at\<close> from \<open>defaultNow()\<close>, here \<open>now\<close>.\<close>

definition createPerson ::
  "db_state \<Rightarrow> timestamp \<Rightarrow> CreatePersonInput \<Rightarrow> error + (Person \<times> db_state)" where
  "createPerson db now input =
    (let person = \<lparr>id_p = people_seq db,
                   full_name = new_full_name input,
                   birth_date = new_birth_date input,
                   death_date = new_death_date input,
                   photo_url = new_photo_url input,
                   created_at_p = now,
                   updated_at = now\<rparr>
     in Inr (person, db\<lparr>people := people db @ [person], people_seq := people_seq db + 1\<rparr>))"

text \<open>\<open>updatePerson\<close>: \<open>now\<close> is the value of \<open>new Date()\<close>. The \<open>update\<close> sets the
  columns present in \<open>updateData\<close> in every row of the given id and returns those rows;
  \<open>result[0]\<close> is the first of them, and \<open>undefined\<close> (here \<open>None\<close>) if there is none.
  These are the handlers that query the database; the declarations of \<open>getPerson\<close> and
  \<open>updatePerson\<close> that return fixed placeholder values are stubs and are not modelled.\<close>

definition updateData :: "timestamp \<Rightarrow> UpdatePersonInput \<Rightarrow> Person \<Rightarrow> Person" where
  "updateData now input p =
    (let p1 = p\<lparr>updated_at := now\<rparr>;
         p2 = (case upd_full_name input of None \<Rightarrow> p1 | Some v \<Rightarrow> p1\<lparr>full_name := v\<rparr>);
         p3 = (case upd_birth_date input of None \<Rightarrow> p2 | Some v \<Rightarrow> p2\<lparr>birth_date := v\<rparr>);
         p4 = (case upd_death_date input of None \<Rightarrow> p3 | Some v \<Rightarrow> p3\<lparr>death_date := v\<rparr>);
         p5 = (case upd_photo_url input of None \<Rightarrow> p4 | Some v \<Rightarrow> p4\<lparr>photo_url := v\<rparr>)
     in p5)"

definition updatePerson ::
  "db_state \<Rightarrow> timestamp \<Rightarrow> UpdatePersonInput \<Rightarrow> error + (Person option \<times> db_state)" where
  "updatePerson db now input =
    (let existingPerson = filter (\<lambda>p. id_p p = upd_id input) (people db)
     in
     if length existingPerson = 0 then Inl (PersonNotFound (upd_id input))
     else
       let db' = db\<lparr>people :=
                   map (\<lambda>p. if id_p p = upd_id input then updateData now input p else p)
                     (people db)\<rparr>;
           result = filter (\<lambda>p. id_p p = upd_id input) (people db')
       in Inr (case result of [] \<Rightarrow> None | row # _ \<Rightarrow> Some row, db'))"

text \<open>\<open>deletePerson\<close>: both foreign keys of the relationships table are declared
  \<open>onDelete: 'cascade'\<close>, so deleting a person deletes the relationships that
  reference it as parent or as child.\<close>

definition deletePerson :: "db_state \<Rightarrow> int \<Rightarrow> error + (bool \<times> db_state)" where
  "deletePerson db input_id =
    (let existingPerson = filter (\<lambda>p. id_p p = input_id) (people db)
     in
     if length existingPerson = 0 then Inl (PersonNotFound input_id)
     else
       Inr (True,
            db\<lparr>people := filter (\<lambda>p. id_p p \<noteq> input_id) (people db),
               relationships :=
                 filter (\<lambda>r. parent_id r \<noteq> input_id \<and> child_id r \<noteq> input_id)
                   (relationships db)\<rparr>))"


section \<open>The flat family tree\<close>

text \<open>\<open>Array.map\<close> with a callback that may throw: the first error ends the loop.\<close>

primrec map_throw :: "('a \<Rightarrow> error + 'b) \<Rightarrow> 'a list \<Rightarrow> error + 'b list" where
  "map_throw f [] = Inr []"
| "map_throw f (x # xs) =
     (case f x of
        Inl e \<Rightarrow> Inl e
      | Inr y \<Rightarrow> (case map_throw f xs of Inl e \<Rightarrow> Inl e | Inr ys \<Rightarrow> Inr (y # ys)))"

definition find_child :: "Person list \<Rightarrow> Relationship \<Rightarrow> error + Person" where
  "find_child allPeople rel =
    (case find (\<lambda>p. id_p p = child_id rel) allPeople of
       None \<Rightarrow> Inl (TreeChildNotFound (child_id rel))
     | Some child \<Rightarrow> Inr child)"

definition find_parent :: "Person list \<Rightarrow> Relationship \<Rightarrow> error + Person" where
  "find_parent allPeople rel =
    (case find (\<lambda>p. id_p p = parent_id rel) allPeople of
       None \<Rightarrow> Inl (TreeParentNotFound (parent_id rel))
     | Some parent \<Rightarrow> Inr parent)"

definition annotate ::
  "Person list \<Rightarrow> Relationship list \<Rightarrow> Person \<Rightarrow> error + PersonWithRelationships" where
  "annotate allPeople allRelationships person =
    (let childRelationships = filter (\<lambda>rel. parent_id rel = id_p person) allRelationships;
         parentRelationships = filter (\<lambda>rel. child_id rel = id_p person) allRelationships
     in
     case map_throw (find_child allPeople) childRelationships of
       Inl e \<Rightarrow> Inl e
     | Inr cs \<Rightarrow>
         (case map_throw (find_parent allPeople) parentRelationships of
            Inl e \<Rightarrow> Inl e
          | Inr ps \<Rightarrow> Inr (Person.extend person \<lparr>parents = ps, children = cs\<rparr>)))"

definition getFamilyTree :: "db_state \<Rightarrow> error + PersonWithRelationships list" where
  "getFamilyTree db =
    (let allPeople = people db;
         allRelationships = relationships db
     in map_throw (annotate allPeople allRelationships) allPeople)"

section \<open>The tree assembler (the \<open>FamilyTree\<close> component of the client)\<close>

datatype TreeNode =
  TreeNode (node_person: PersonWithRelationships) (node_children: "TreeNode list") (node_level: nat)

text \<open>
  \<open>buildTree\<close> calls itself inside \<open>person.children.map(...)\<close>. The loop over the children
  is \<open>buildChildren\<close>: a child that \<open>data.find\<close> does not find yields \<open>null\<close>, which
  \<open>filter(Boolean)\<close> drops; a child that is found yields \<open>buildTree(child, level + 1)\<close>,
  of which the body is written out here (see \<open>buildChildren_Cons\<close> below). The argument
  \<open>level\<close> of \<open>buildChildren\<close> is the level of the nodes it builds. The recursion has no
  bound in the source, so the functions return an \<open>option\<close>: \<open>None\<close> is a call that never
  returns.
\<close>

partial_function (option) buildChildren ::
  "PersonWithRelationships list \<Rightarrow> Person list \<Rightarrow> nat \<Rightarrow> TreeNode list option" where
  "buildChildren data cs level =
    (case cs of
       [] \<Rightarrow> Some []
     | child # rest \<Rightarrow>
         (case find (\<lambda>p. id_p p = id_p child) data of
            None \<Rightarrow> buildChildren data rest level
          | Some childWithRelationships \<Rightarrow>
              do {
                grandchildren \<leftarrow> buildChildren data (children childWithRelationships) (level + 1);
                others \<leftarrow> buildChildren data rest level;
                Some (TreeNode childWithRelationships grandchildren level # others)
              }))"

definition buildTree ::
  "PersonWithRelationships list \<Rightarrow> PersonWithRelationships \<Rightarrow> nat \<Rightarrow> TreeNode option" where
  "buildTree data person level =
    do {
      cs \<leftarrow> buildChildren data (children person) (level + 1);
      Some (TreeNode person cs level)
    }"

text \<open>\<open>Array.map\<close> with a callback that may not return.\<close>

primrec map_diverge :: "('a \<Rightarrow> 'b option) \<Rightarrow> 'a list \<Rightarrow> 'b list option" where
  "map_diverge f [] = Some []"
| "map_diverge f (x # xs) =
     do { y \<leftarrow> f x; ys \<leftarrow> map_diverge f xs; Some (y # ys) }"

definition treeStructure :: "PersonWithRelationships list \<Rightarrow> TreeNode list option" where
  "treeStructure data =
    (if length data = 0 then Some []
     else
       let rootPeople = filter (\<lambda>person. length (parents person) = 0) data
       in map_diverge (\<lambda>person. buildTree data person 0) rootPeople)"

section \<open>Vocabulary of the specification\<close>

text \<open>
  The constraints that the schema declares: the ids are primary keys, and the two
  columns \<open>parent_id\<close> and \<open>child_id\<close> reference the id of a person.
\<close>

definition primary_keys :: "db_state \<Rightarrow> bool" where
  "primary_keys db \<longleftrightarrow>
     distinct (map id_p (people db)) \<and> distinct (map id_r (relationships db))"

definition foreign_keys :: "db_state \<Rightarrow> bool" where
  "foreign_keys db \<longleftrightarrow>
     (\<forall>r \<in> set (relationships db).
        parent_id r \<in> id_p ` set (people db) \<and> child_id r \<in> id_p ` set (people db))"

definition schema_ok :: "db_state \<Rightarrow> bool" where
  "schema_ok db \<longleftrightarrow> primary_keys db \<and> foreign_keys db"



definition has_edge :: "db_state \<Rightarrow> int \<Rightarrow> int \<Rightarrow> bool" where
  "has_edge db a b \<longleftrightarrow> (\<exists>r \<in> set (relationships db). parent_id r = a \<and> child_id r = b)"

definition has_parent :: "db_state \<Rightarrow> int \<Rightarrow> bool" where
  "has_parent db x \<longleftrightarrow> (\<exists>r \<in> set (relationships db). child_id r = x)"

definition edge_set :: "db_state \<Rightarrow> (int \<times> int) set" where
  "edge_set db = set (map (\<lambda>r. (parent_id r, child_id r)) (relationships db))"

text \<open>The entry that \<open>getFamilyTree\<close> builds for a person when every lookup succeeds.\<close>

definition annotated :: "db_state \<Rightarrow> Person \<Rightarrow> PersonWithRelationships" where
  "annotated db p =
     Person.extend p
      \<lparr>parents = map (\<lambda>rel. the (find (\<lambda>q. id_p q = parent_id rel) (people db)))
                    (filter (\<lambda>rel. child_id rel = id_p p) (relationships db)),
       children = map (\<lambda>rel. the (find (\<lambda>q. id_p q = child_id rel) (people db)))
                    (filter (\<lambda>rel. parent_id rel = id_p p) (relationships db))\<rparr>"

text \<open>The nodes of a tree and of a forest, at every depth.\<close>

primrec nodes_of :: "TreeNode \<Rightarrow> TreeNode list" where
  "nodes_of (TreeNode p cs l) = TreeNode p cs l # concat (map nodes_of cs)"

definition forest_nodes :: "TreeNode list \<Rightarrow> TreeNode list" where
  "forest_nodes ns = concat (map nodes_of ns)"

text \<open>The edges of the assembler's input, as pairs (id of the parent, id of the child),
  and the entries of the input that the children of a person resolve to.\<close>

definition child_edges :: "PersonWithRelationships list \<Rightarrow> (int \<times> int) set" where
  "child_edges data =
     set (concat (map (\<lambda>p. map (\<lambda>c. (id_p p, id_p c)) (children p)) data))"

primrec resolve ::
  "PersonWithRelationships list \<Rightarrow> Person list \<Rightarrow> PersonWithRelationships list" where
  "resolve data [] = []"
| "resolve data (c # cs) =
     (case find (\<lambda>p. id_p p = id_p c) data of
        None \<Rightarrow> resolve data cs
      | Some q \<Rightarrow> q # resolve data cs)"

text \<open>A node is the whole tree of its person: what \<open>buildTree\<close> returns for that person
  at that level, with one child node for each child that resolves, one level below.\<close>

definition subtree_ok :: "PersonWithRelationships list \<Rightarrow> TreeNode \<Rightarrow> bool" where
  "subtree_ok data n \<longleftrightarrow>
     buildTree data (node_person n) (node_level n) = Some n \<and>
     map node_person (node_children n) = resolve data (children (node_person n)) \<and>
     (\<forall>k \<in> set (node_children n). node_level k = node_level n + 1)"

text \<open>The child nodes that the assembler builds below a root, when the call returns.\<close>

definition built_children ::
  "PersonWithRelationships list \<Rightarrow> PersonWithRelationships \<Rightarrow> TreeNode list" where
  "built_children data p = the (buildChildren data (children p) 1)"

text \<open>
  The child relation of the assembler's input: \<open>q\<close> is an entry that a child of the
  entry \<open>p\<close> resolves to. A cycle is reachable from \<open>p\<close> when some entry reachable from
  \<open>p\<close> along this relation reaches itself again.
\<close>

definition child_rel ::
  "PersonWithRelationships list \<Rightarrow> (PersonWithRelationships \<times> PersonWithRelationships) set" where
  "child_rel data = set (concat (map (\<lambda>p. map (Pair p) (resolve data (children p))) data))"

definition cycle_reachable ::
  "PersonWithRelationships list \<Rightarrow> PersonWithRelationships \<Rightarrow> bool" where
  "cycle_reachable data p \<longleftrightarrow>
     (\<exists>q. (p, q) \<in> (child_rel data)\<^sup>* \<and> (q, q) \<in> (child_rel data)\<^sup>+)"

section \<open>Example datasets\<close>

definition person_row :: "int \<Rightarrow> string \<Rightarrow> Person" where
  "person_row i name =
     \<lparr>id_p = i, full_name = name, birth_date = None, death_date = None, photo_url = None,
      created_at_p = 0, updated_at = 0\<rparr>"

definition edge_row :: "int \<Rightarrow> int \<Rightarrow> int \<Rightarrow> Relationship" where
  "edge_row i a b = \<lparr>id_r = i, parent_id = a, child_id = b, created_at_r = 0\<rparr>"

text \<open>A mother, her daughter, and a third person with no relationship.\<close>

definition family_db :: db_state where
  "family_db =
     \<lparr>people = [person_row 1 ''M'', person_row 2 ''D'', person_row 3 ''F''],
      relationships = [edge_row 1 1 2],
      people_seq = 4, relationships_seq = 2\<rparr>"

text \<open>A child with two recorded parents.\<close>

definition adoption_db :: db_state where
  "adoption_db =
     \<lparr>people = [person_row 1 ''Bio Parent'', person_row 2 ''Adoptive Parent'',
                person_row 3 ''Child''],
      relationships = [edge_row 1 1 3, edge_row 2 2 3],
      people_seq = 4, relationships_seq = 3\<rparr>"

text \<open>An edge whose two ends are both missing from the people.\<close>

definition dangling_db :: db_state where
  "dangling_db =
     \<lparr>people = [person_row 1 ''M''],
      relationships = [edge_row 1 5 6],
      people_seq = 2, relationships_seq = 2\<rparr>"




text \<open>A root R with child A, and the cycle A, B, C, A of three edges, each of which
  \<open>createRelationship\<close> accepts; \<open>cyclic_data\<close> is what \<open>getFamilyTree\<close> returns for it.\<close>

definition cyclic_db :: db_state where
  "cyclic_db =
     \<lparr>people = [person_row 1 ''R'', person_row 2 ''A'', person_row 3 ''B'', person_row 4 ''C''],
      relationships = [edge_row 1 1 2, edge_row 2 2 3, edge_row 3 3 4, edge_row 4 4 2],
      people_seq = 5, relationships_seq = 5\<rparr>"

definition cyclic_R :: PersonWithRelationships where
  "cyclic_R = Person.extend (person_row 1 ''R'') \<lparr>parents = [], children = [person_row 2 ''A'']\<rparr>"

definition cyclic_A :: PersonWithRelationships where
  "cyclic_A = Person.extend (person_row 2 ''A'')
     \<lparr>parents = [person_row 1 ''R'', person_row 4 ''C''], children = [person_row 3 ''B'']\<rparr>"

definition cyclic_B :: PersonWithRelationships where
  "cyclic_B = Person.extend (person_row 3 ''B'')
     \<lparr>parents = [person_row 2 ''A''], children = [person_row 4 ''C'']\<rparr>"

definition cyclic_C :: PersonWithRelationships where
  "cyclic_C = Person.extend (person_row 4 ''C'')
     \<lparr>parents = [person_row 3 ''B''], children = [person_row 2 ''A'']\<rparr>"

definition cyclic_data :: "PersonWithRelationships list" where
  "cyclic_data = [cyclic_R, cyclic_A, cyclic_B, cyclic_C]"

text \<open>What \<open>getFamilyTree\<close> returns for \<open>family_db\<close> and for \<open>adoption_db\<close>.\<close>

definition family_data :: "PersonWithRelationships list" where
  "family_data =
     [Person.extend (person_row 1 ''M'') \<lparr>parents = [], children = [person_row 2 ''D'']\<rparr>,
      Person.extend (person_row 2 ''D'') \<lparr>parents = [person_row 1 ''M''], children = []\<rparr>,
      Person.extend (person_row 3 ''F'') \<lparr>parents = [], children = []\<rparr>]"

definition adoption_data :: "PersonWithRelationships list" where
  "adoption_data =
     [Person.extend (person_row 1 ''Bio Parent'')
        \<lparr>parents = [], children = [person_row 3 ''Child'']\<rparr>,
      Person.extend (person_row 2 ''Adoptive Parent'')
        \<lparr>parents = [], children = [person_row 3 ''Child'']\<rparr>,
      Person.extend (person_row 3 ''Child'')
        \<lparr>parents = [person_row 1 ''Bio Parent'', person_row 2 ''Adoptive Parent''],
         children = []\<rparr>]"

section \<open>Lists, lookups and records\<close>





lemma find_id_Some:
  "distinct (map id_p ps) \<Longrightarrow> p \<in> set ps \<Longrightarrow> find (\<lambda>q. id_p q = id_p p) ps = Some p"
  by (induction ps) (auto simp: image_iff)

lemma find_id_in: "find (\<lambda>q. id_p q = x) ps = Some p \<Longrightarrow> p \<in> set ps \<and> id_p p = x"
  by (induction ps) (auto split: if_splits)

lemma find_id_None: "(find (\<lambda>q. id_p q = x) ps = None) = (x \<notin> id_p ` set ps)"
  by (auto simp: find_None_iff)

lemma find_id_ex: "x \<in> id_p ` set ps \<Longrightarrow> \<exists>p. find (\<lambda>q. id_p q = x) ps = Some p"
  using find_id_None [of x ps] by auto

lemma the_find_id:
  "x \<in> id_p ` set ps \<Longrightarrow>
   find (\<lambda>q. id_p q = x) ps = Some (the (find (\<lambda>q. id_p q = x) ps))"
  using find_id_ex [of x ps] by auto

lemma the_find_id_p:
  assumes "x \<in> id_p ` set ps"
  shows "id_p (the (find (\<lambda>q. id_p q = x) ps)) = x \<and> the (find (\<lambda>q. id_p q = x) ps) \<in> set ps"
proof -
  from assms have "find (\<lambda>q. id_p q = x) ps = Some (the (find (\<lambda>q. id_p q = x) ps))"
    by (rule the_find_id)
  from find_id_in [OF this] show ?thesis by simp
qed


lemma truncate_extend: "Person.truncate (Person.extend p m) = p"
  by (simp add: Person.defs)

lemma id_p_extend: "id_p (Person.extend p m) = id_p p"
  by (simp add: Person.defs)

lemma parents_extend: "parents (Person.extend p \<lparr>parents = ps, children = cs\<rparr>) = ps"
  by (simp add: Person.defs)

lemma children_extend: "children (Person.extend p \<lparr>parents = ps, children = cs\<rparr>) = cs"
  by (simp add: Person.defs)

section \<open>Properties of the relationship handlers\<close>

text \<open>
  C9. For every id \<open>x\<close> and every database, \<open>createRelationship\<close> on the pair \<open>(x, x)\<close>
  fails with the self-relationship error, whether or not a person with id \<open>x\<close> exists:
  the equality of the two ids is tested before the two lookups, so neither not-found
  error is ever produced for such a pair.
\<close>

theorem createRelationship_self:
  "createRelationship db now \<lparr>in_parent_id = x, in_child_id = x\<rparr> = Inl SelfRelationship"
  by (simp add: createRelationship_def)





section \<open>Properties of the person handlers\<close>



lemma id_p_updateData [simp]: "id_p (updateData now input p) = id_p p"
  by (simp add: updateData_def Let_def split: option.splits)

lemma created_at_updateData [simp]: "created_at_p (updateData now input p) = created_at_p p"
  by (simp add: updateData_def Let_def split: option.splits)

lemma updated_at_updateData [simp]: "updated_at (updateData now input p) = now"
  by (simp add: updateData_def Let_def split: option.splits)










section \<open>Properties of the flat family tree and of the lookup of one person\<close>

lemma map_throw_Inr:
  "(\<And>x. x \<in> set xs \<Longrightarrow> f x = Inr (g x)) \<Longrightarrow> map_throw f xs = Inr (map g xs)"
  by (induction xs) auto

lemma map_throw_isl: "isl (map_throw f xs) = (\<exists>x \<in> set xs. isl (f x))"
  by (induction xs) (auto split: sum.splits)

lemma isl_find_child: "isl (find_child ps rel) = (child_id rel \<notin> id_p ` set ps)"
  unfolding find_id_None [symmetric] by (simp add: find_child_def split: option.splits)

lemma isl_find_parent: "isl (find_parent ps rel) = (parent_id rel \<notin> id_p ` set ps)"
  unfolding find_id_None [symmetric] by (simp add: find_parent_def split: option.splits)

lemma isl_annotate:
  "isl (annotate ps rs p) =
     (\<exists>rel \<in> set rs.
        (parent_id rel = id_p p \<and> child_id rel \<notin> id_p ` set ps) \<or>
        (child_id rel = id_p p \<and> parent_id rel \<notin> id_p ` set ps))"
proof -
  let ?cs = "map_throw (find_child ps) (filter (\<lambda>rel. parent_id rel = id_p p) rs)"
  let ?ps = "map_throw (find_parent ps) (filter (\<lambda>rel. child_id rel = id_p p) rs)"
  have "isl (annotate ps rs p) = (isl ?cs \<or> isl ?ps)"
    by (simp add: annotate_def Let_def split: sum.splits)
  then show ?thesis
    unfolding map_throw_isl isl_find_child isl_find_parent by auto
qed

text \<open>Every handler that changes the database keeps the foreign keys resolved.\<close>

lemma createPerson_foreign_keys:
  "foreign_keys db \<Longrightarrow> createPerson db now input = Inr (p, db') \<Longrightarrow> foreign_keys db'"
  by (auto simp: createPerson_def Let_def foreign_keys_def)

lemma updatePerson_foreign_keys:
  assumes "foreign_keys db" and "updatePerson db now input = Inr (p, db')"
  shows "foreign_keys db'"
proof -
  let ?g = "\<lambda>q. if id_p q = upd_id input then updateData now input q else q"
  from assms(2) have "people db' = map ?g (people db)" "relationships db' = relationships db"
    by (auto simp: updatePerson_def Let_def split: if_splits)
  moreover have "map id_p (map ?g (people db)) = map id_p (people db)" by simp
  then have "id_p ` set (map ?g (people db)) = id_p ` set (people db)"
    by (metis list.set_map)
  ultimately show ?thesis using assms(1) by (simp add: foreign_keys_def)
qed

lemma deletePerson_foreign_keys:
  assumes "foreign_keys db" and "deletePerson db x = Inr (ok, db')"
  shows "foreign_keys db'"
proof -
  from assms(2) have db': "people db' = filter (\<lambda>p. id_p p \<noteq> x) (people db)"
    "relationships db' = filter (\<lambda>r. parent_id r \<noteq> x \<and> child_id r \<noteq> x) (relationships db)"
    by (auto simp: deletePerson_def Let_def split: if_splits)
  have "i \<in> id_p ` set (people db')" if "i \<in> id_p ` set (people db)" "i \<noteq> x" for i
    using that unfolding db' by auto
  with assms(1) show ?thesis unfolding foreign_keys_def db' by simp
qed

lemma createRelationship_foreign_keys:
  assumes "foreign_keys db" and "createRelationship db now input = Inr (r, db')"
  shows "foreign_keys db'"
proof -
  from assms(2) have ends: "in_parent_id input \<in> id_p ` set (people db)"
    "in_child_id input \<in> id_p ` set (people db)"
    by (force simp: createRelationship_def Let_def filter_empty_conv split: if_splits)+
  from assms(2) have db': "people db' = people db"
    "relationships db' = relationships db @
       [\<lparr>id_r = relationships_seq db, parent_id = in_parent_id input,
         child_id = in_child_id input, created_at_r = now\<rparr>]"
    by (auto simp: createRelationship_def Let_def split: if_splits)
  from assms(1) ends show ?thesis unfolding foreign_keys_def db' by simp
qed

lemma deleteRelationship_foreign_keys:
  "foreign_keys db \<Longrightarrow> deleteRelationship db input = Inr (ok, db') \<Longrightarrow> foreign_keys db'"
  by (auto simp: deleteRelationship_def Let_def foreign_keys_def)

text \<open>
  C10 (as amended). \<open>getFamilyTree\<close> throws exactly when some edge has one end that is
  the id of a person and its other end that is the id of no person: the lookups run
  only for the edges that start or end at a person of the list. When every edge's
  \<open>parent_id\<close> and \<open>child_id\<close> occur among the people, it returns a list; and this
  precondition, once true, stays true after every successful \<open>createPerson\<close>,
  \<open>updatePerson\<close>, \<open>deletePerson\<close>, \<open>createRelationship\<close> and \<open>deleteRelationship\<close>.
\<close>

theorem getFamilyTree_throws:
  "isl (getFamilyTree db) =
     (\<exists>p \<in> set (people db). \<exists>rel \<in> set (relationships db).
        (parent_id rel = id_p p \<and> child_id rel \<notin> id_p ` set (people db)) \<or>
        (child_id rel = id_p p \<and> parent_id rel \<notin> id_p ` set (people db)))
   \<and> (foreign_keys db \<longrightarrow> (\<exists>tree. getFamilyTree db = Inr tree))
   \<and> (foreign_keys db \<longrightarrow>
        (\<forall>p db'. createPerson db now new = Inr (p, db') \<longrightarrow> foreign_keys db') \<and>
        (\<forall>p db'. updatePerson db now upd = Inr (p, db') \<longrightarrow> foreign_keys db') \<and>
        (\<forall>ok db'. deletePerson db x = Inr (ok, db') \<longrightarrow> foreign_keys db') \<and>
        (\<forall>r db'. createRelationship db now pair = Inr (r, db') \<longrightarrow> foreign_keys db') \<and>
        (\<forall>ok db'. deleteRelationship db pair = Inr (ok, db') \<longrightarrow> foreign_keys db'))"
proof -
  let ?result = "getFamilyTree db"
  have first: "isl ?result =
     (\<exists>p \<in> set (people db). \<exists>rel \<in> set (relationships db).
        (parent_id rel = id_p p \<and> child_id rel \<notin> id_p ` set (people db)) \<or>
        (child_id rel = id_p p \<and> parent_id rel \<notin> id_p ` set (people db)))"
    by (simp add: getFamilyTree_def Let_def map_throw_isl isl_annotate)
  have second: "\<exists>tree. ?result = Inr tree" if "foreign_keys db"
  proof -
    from that first have "\<not> isl ?result"
      unfolding foreign_keys_def by blast
    then show ?thesis by (cases ?result) simp_all
  qed
  have third: "(\<forall>p db'. createPerson db now new = Inr (p, db') \<longrightarrow> foreign_keys db') \<and>
        (\<forall>p db'. updatePerson db now upd = Inr (p, db') \<longrightarrow> foreign_keys db') \<and>
        (\<forall>ok db'. deletePerson db x = Inr (ok, db') \<longrightarrow> foreign_keys db') \<and>
        (\<forall>r db'. createRelationship db now pair = Inr (r, db') \<longrightarrow> foreign_keys db') \<and>
        (\<forall>ok db'. deleteRelationship db pair = Inr (ok, db') \<longrightarrow> foreign_keys db')"
    if "foreign_keys db"
    by (intro conjI allI impI)
      (erule createPerson_foreign_keys [OF that] updatePerson_foreign_keys [OF that]
        deletePerson_foreign_keys [OF that] createRelationship_foreign_keys [OF that]
        deleteRelationship_foreign_keys [OF that])+
  from first second third show ?thesis by blast
qed

theorem getFamilyTree_throws_witness:
  "foreign_keys family_db \<and> \<not> isl (getFamilyTree family_db) \<and>
   getFamilyTree (family_db\<lparr>relationships := [edge_row 1 1 6]\<rparr>) = Inl (TreeChildNotFound 6) \<and>
   isl (getFamilyTree (family_db\<lparr>relationships := [edge_row 1 1 6]\<rparr>)) \<and>
   deletePerson family_db 2 =
     Inr (True, family_db\<lparr>people := [person_row 1 ''M'', person_row 3 ''F''],
                          relationships := []\<rparr>) \<and>
   foreign_keys (family_db\<lparr>people := [person_row 1 ''M'', person_row 3 ''F''],
                          relationships := []\<rparr>)"
proof -
  have fk: "foreign_keys family_db"
    by (simp add: foreign_keys_def family_db_def person_row_def edge_row_def)
  note inst = getFamilyTree_throws [where db = family_db and x = 2]
  from inst fk obtain tree where "getFamilyTree family_db = Inr tree"
    by blast
  then have 1: "\<not> isl (getFamilyTree family_db)" by simp
  have 2: "getFamilyTree (family_db\<lparr>relationships := [edge_row 1 1 6]\<rparr>) =
      Inl (TreeChildNotFound 6)"
    by (simp add: getFamilyTree_def annotate_def find_child_def find_parent_def family_db_def
        person_row_def edge_row_def)
  have 3: "deletePerson family_db 2 =
     Inr (True, family_db\<lparr>people := [person_row 1 ''M'', person_row 3 ''F''],
                          relationships := []\<rparr>)"
    by (simp add: deletePerson_def family_db_def person_row_def edge_row_def)
  from inst fk 3
  have 4: "foreign_keys (family_db\<lparr>people := [person_row 1 ''M'', person_row 3 ''F''],
                          relationships := []\<rparr>)"
    by blast
  from fk 1 2 3 4 show ?thesis by simp
qed

text \<open>
  The claim C10 as it was stated fails for an edge both of whose ends are missing: the
  edge from 5 to 6 references two ids that no person has, and \<open>getFamilyTree\<close> returns the
  one person with no parents and no children.
\<close>

theorem getFamilyTree_dangling_counterexample:
  "relationships dangling_db = [edge_row 1 5 6] \<and>
   parent_id (edge_row 1 5 6) \<notin> id_p ` set (people dangling_db) \<and>
   child_id (edge_row 1 5 6) \<notin> id_p ` set (people dangling_db) \<and>
   getFamilyTree dangling_db =
     Inr [Person.extend (person_row 1 ''M'') \<lparr>parents = [], children = []\<rparr>]"
  by (simp add: getFamilyTree_def annotate_def dangling_db_def person_row_def edge_row_def)

lemma annotate_resolved:
  assumes "\<And>rel. rel \<in> set rs \<Longrightarrow> parent_id rel = id_p p \<Longrightarrow> child_id rel \<in> id_p ` set ps"
    and "\<And>rel. rel \<in> set rs \<Longrightarrow> child_id rel = id_p p \<Longrightarrow> parent_id rel \<in> id_p ` set ps"
  shows "annotate ps rs p =
    Inr (Person.extend p
      \<lparr>parents = map (\<lambda>rel. the (find (\<lambda>q. id_p q = parent_id rel) ps))
                    (filter (\<lambda>rel. child_id rel = id_p p) rs),
       children = map (\<lambda>rel. the (find (\<lambda>q. id_p q = child_id rel) ps))
                    (filter (\<lambda>rel. parent_id rel = id_p p) rs)\<rparr>)"
proof -
  have c: "map_throw (find_child ps) (filter (\<lambda>rel. parent_id rel = id_p p) rs) =
      Inr (map (\<lambda>rel. the (find (\<lambda>q. id_p q = child_id rel) ps))
             (filter (\<lambda>rel. parent_id rel = id_p p) rs))"
  proof (rule map_throw_Inr)
    fix rel assume "rel \<in> set (filter (\<lambda>rel. parent_id rel = id_p p) rs)"
    then have "child_id rel \<in> id_p ` set ps" using assms(1) by simp
    then obtain c where "find (\<lambda>q. id_p q = child_id rel) ps = Some c"
      using find_id_ex by blast
    then show "find_child ps rel = Inr (the (find (\<lambda>q. id_p q = child_id rel) ps))"
      by (simp add: find_child_def)
  qed
  have q: "map_throw (find_parent ps) (filter (\<lambda>rel. child_id rel = id_p p) rs) =
      Inr (map (\<lambda>rel. the (find (\<lambda>q. id_p q = parent_id rel) ps))
             (filter (\<lambda>rel. child_id rel = id_p p) rs))"
  proof (rule map_throw_Inr)
    fix rel assume "rel \<in> set (filter (\<lambda>rel. child_id rel = id_p p) rs)"
    then have "parent_id rel \<in> id_p ` set ps" using assms(2) by simp
    then obtain c where "find (\<lambda>q. id_p q = parent_id rel) ps = Some c"
      using find_id_ex by blast
    then show "find_parent ps rel = Inr (the (find (\<lambda>q. id_p q = parent_id rel) ps))"
      by (simp add: find_parent_def)
  qed
  show ?thesis by (simp add: annotate_def Let_def c q)
qed

lemma getFamilyTree_annotated:
  assumes fk: "foreign_keys db"
  shows "getFamilyTree db = Inr (map (annotated db) (people db))"
  unfolding getFamilyTree_def Let_def annotated_def
  by (rule map_throw_Inr, rule annotate_resolved) (use fk in \<open>auto simp: foreign_keys_def\<close>)

lemma id_p_annotated [simp]: "id_p (annotated db p) = id_p p"
  by (simp add: annotated_def id_p_extend)

lemma truncate_annotated [simp]: "Person.truncate (annotated db p) = p"
  by (simp add: annotated_def truncate_extend)

lemma parents_annotated:
  "parents (annotated db p) =
     map (\<lambda>rel. the (find (\<lambda>q. id_p q = parent_id rel) (people db)))
       (filter (\<lambda>rel. child_id rel = id_p p) (relationships db))"
  by (simp add: annotated_def parents_extend)

lemma children_annotated:
  "children (annotated db p) =
     map (\<lambda>rel. the (find (\<lambda>q. id_p q = child_id rel) (people db)))
       (filter (\<lambda>rel. parent_id rel = id_p p) (relationships db))"
  by (simp add: annotated_def children_extend)

lemma resolved_set:
  assumes d: "distinct (map id_p ps)"
    and fk: "\<And>rel. rel \<in> set rs \<Longrightarrow> P rel \<Longrightarrow> k rel \<in> id_p ` set ps"
  shows "set (map (\<lambda>rel. the (find (\<lambda>q. id_p q = k rel) ps)) (filter P rs)) =
    {p \<in> set ps. \<exists>rel \<in> set rs. k rel = id_p p \<and> P rel}"
proof (intro equalityI subsetI)
  fix p assume "p \<in> set (map (\<lambda>rel. the (find (\<lambda>q. id_p q = k rel) ps)) (filter P rs))"
  then obtain rel where rel: "rel \<in> set rs" "P rel"
    and p: "p = the (find (\<lambda>q. id_p q = k rel) ps)" by auto
  from fk [OF rel] have "find (\<lambda>q. id_p q = k rel) ps = Some p"
    unfolding p by (rule the_find_id)
  then have "p \<in> set ps \<and> id_p p = k rel" by (rule find_id_in)
  with rel show "p \<in> {p \<in> set ps. \<exists>rel \<in> set rs. k rel = id_p p \<and> P rel}" by auto
next
  fix p assume "p \<in> {p \<in> set ps. \<exists>rel \<in> set rs. k rel = id_p p \<and> P rel}"
  then obtain rel where p: "p \<in> set ps" and rel: "rel \<in> set rs" "k rel = id_p p" "P rel"
    by auto
  from d p have "find (\<lambda>q. id_p q = id_p p) ps = Some p" by (rule find_id_Some)
  with rel have "the (find (\<lambda>q. id_p q = k rel) ps) = p" by simp
  with rel show "p \<in> set (map (\<lambda>rel. the (find (\<lambda>q. id_p q = k rel) ps)) (filter P rs))"
    by force
qed

lemma resolved_list_all2:
  assumes fk: "\<And>rel. rel \<in> set rs \<Longrightarrow> P rel \<Longrightarrow> k rel \<in> id_p ` set ps"
  shows "list_all2 (\<lambda>p rel. find (\<lambda>q. id_p q = k rel) ps = Some p)
     (map (\<lambda>rel. the (find (\<lambda>q. id_p q = k rel) ps)) (filter P rs)) (filter P rs)"
  unfolding list_all2_map1 list_all2_same using fk the_find_id by auto

text \<open>
  C4. For every database that satisfies the constraints of the schema, \<open>getFamilyTree\<close>
  returns a list with one entry for each person, in the order of the people and with
  that person's fields. The parents of the entry of \<open>x\<close> are, edge by edge, the person
  records found for the \<open>parent_id\<close> of the edges whose \<open>child_id\<close> is \<open>x\<close>: as a set,
  exactly the people \<open>p\<close> with an edge from \<open>p\<close> to \<open>x\<close>; and likewise for its children.
  For two people M and D and the single edge from M to D, the entry of M has the
  children \<open>[D]\<close> and no parents, and the entry of D the parents \<open>[M]\<close> and no children.
\<close>

theorem getFamilyTree_flat:
  "(schema_ok db \<longrightarrow>
     (\<exists>tree. getFamilyTree db = Inr tree \<and> map Person.truncate tree = people db \<and>
        (\<forall>e \<in> set tree.
           list_all2 (\<lambda>p rel. find (\<lambda>q. id_p q = parent_id rel) (people db) = Some p)
             (parents e) (filter (\<lambda>rel. child_id rel = id_p e) (relationships db)) \<and>
           list_all2 (\<lambda>c rel. find (\<lambda>q. id_p q = child_id rel) (people db) = Some c)
             (children e) (filter (\<lambda>rel. parent_id rel = id_p e) (relationships db)) \<and>
           set (parents e) = {p \<in> set (people db). has_edge db (id_p p) (id_p e)} \<and>
           set (children e) = {c \<in> set (people db). has_edge db (id_p e) (id_p c)})))
   \<and> (id_p M \<noteq> id_p D \<and> parent_id edge = id_p M \<and> child_id edge = id_p D \<longrightarrow>
        getFamilyTree \<lparr>people = [M, D], relationships = [edge],
                       people_seq = s1, relationships_seq = s2\<rparr> =
          Inr [Person.extend M \<lparr>parents = [], children = [D]\<rparr>,
               Person.extend D \<lparr>parents = [M], children = []\<rparr>])"
proof -
  have general: "\<exists>tree. getFamilyTree db = Inr tree \<and> map Person.truncate tree = people db \<and>
        (\<forall>e \<in> set tree.
           list_all2 (\<lambda>p rel. find (\<lambda>q. id_p q = parent_id rel) (people db) = Some p)
             (parents e) (filter (\<lambda>rel. child_id rel = id_p e) (relationships db)) \<and>
           list_all2 (\<lambda>c rel. find (\<lambda>q. id_p q = child_id rel) (people db) = Some c)
             (children e) (filter (\<lambda>rel. parent_id rel = id_p e) (relationships db)) \<and>
           set (parents e) = {p \<in> set (people db). has_edge db (id_p p) (id_p e)} \<and>
           set (children e) = {c \<in> set (people db). has_edge db (id_p e) (id_p c)})"
    if ok: "schema_ok db"
  proof -
    let ?ps = "people db" and ?rs = "relationships db"
    from ok have fk: "foreign_keys db" and d: "distinct (map id_p ?ps)"
      by (simp_all add: schema_ok_def primary_keys_def)
    have fkp: "parent_id rel \<in> id_p ` set ?ps" and fkc: "child_id rel \<in> id_p ` set ?ps"
      if "rel \<in> set ?rs" for rel
      using fk that by (simp_all add: foreign_keys_def)
    have tree: "getFamilyTree db = Inr (map (annotated db) ?ps)"
      using fk by (rule getFamilyTree_annotated)
    have trunc: "map Person.truncate (map (annotated db) ?ps) = ?ps"
      by (simp add: o_def)
    have each: "list_all2 (\<lambda>p rel. find (\<lambda>q. id_p q = parent_id rel) ?ps = Some p)
             (parents e) (filter (\<lambda>rel. child_id rel = id_p e) ?rs) \<and>
           list_all2 (\<lambda>c rel. find (\<lambda>q. id_p q = child_id rel) ?ps = Some c)
             (children e) (filter (\<lambda>rel. parent_id rel = id_p e) ?rs) \<and>
           set (parents e) = {p \<in> set ?ps. has_edge db (id_p p) (id_p e)} \<and>
           set (children e) = {c \<in> set ?ps. has_edge db (id_p e) (id_p c)}"
      if "e \<in> set (map (annotated db) ?ps)" for e
    proof -
      from that obtain p where e: "e = annotated db p" by auto
      have ide: "id_p e = id_p p" unfolding e by simp
      have 1: "list_all2 (\<lambda>p rel. find (\<lambda>q. id_p q = parent_id rel) ?ps = Some p)
             (parents e) (filter (\<lambda>rel. child_id rel = id_p p) ?rs)"
        unfolding e parents_annotated by (rule resolved_list_all2) (rule fkp)
      have 2: "list_all2 (\<lambda>c rel. find (\<lambda>q. id_p q = child_id rel) ?ps = Some c)
             (children e) (filter (\<lambda>rel. parent_id rel = id_p p) ?rs)"
        unfolding e children_annotated by (rule resolved_list_all2) (rule fkc)
      have 3: "set (parents e) = {q \<in> set ?ps. has_edge db (id_p q) (id_p p)}"
        unfolding e parents_annotated has_edge_def by (rule resolved_set [OF d]) (rule fkp)
      have "set (children e) =
          {q \<in> set ?ps. \<exists>rel \<in> set ?rs. child_id rel = id_p q \<and> parent_id rel = id_p p}"
        unfolding e children_annotated by (rule resolved_set [OF d]) (rule fkc)
      then have 4: "set (children e) = {q \<in> set ?ps. has_edge db (id_p p) (id_p q)}"
        unfolding has_edge_def by (simp add: conj_commute)
      from 1 2 3 4 show ?thesis unfolding ide by blast
    qed
    from tree trunc each show ?thesis by blast
  qed
  have example: "getFamilyTree \<lparr>people = [M, D], relationships = [edge],
                       people_seq = s1, relationships_seq = s2\<rparr> =
          Inr [Person.extend M \<lparr>parents = [], children = [D]\<rparr>,
               Person.extend D \<lparr>parents = [M], children = []\<rparr>]"
    if "id_p M \<noteq> id_p D \<and> parent_id edge = id_p M \<and> child_id edge = id_p D"
    using that by (simp add: getFamilyTree_def annotate_def find_child_def find_parent_def)
  from general example show ?thesis by blast
qed

theorem getFamilyTree_flat_witness:
  "schema_ok adoption_db \<and>
   getFamilyTree adoption_db =
     Inr [Person.extend (person_row 1 ''Bio Parent'')
            \<lparr>parents = [], children = [person_row 3 ''Child'']\<rparr>,
          Person.extend (person_row 2 ''Adoptive Parent'')
            \<lparr>parents = [], children = [person_row 3 ''Child'']\<rparr>,
          Person.extend (person_row 3 ''Child'')
            \<lparr>parents = [person_row 1 ''Bio Parent'', person_row 2 ''Adoptive Parent''],
             children = []\<rparr>] \<and>
   id_p (person_row 1 ''M'') \<noteq> id_p (person_row 2 ''D'') \<and>
   parent_id (edge_row 1 1 2) = id_p (person_row 1 ''M'') \<and>
   child_id (edge_row 1 1 2) = id_p (person_row 2 ''D'') \<and>
   getFamilyTree \<lparr>people = [person_row 1 ''M'', person_row 2 ''D''],
                   relationships = [edge_row 1 1 2], people_seq = 3, relationships_seq = 2\<rparr> =
     Inr [Person.extend (person_row 1 ''M'') \<lparr>parents = [], children = [person_row 2 ''D'']\<rparr>,
          Person.extend (person_row 2 ''D'') \<lparr>parents = [person_row 1 ''M''], children = []\<rparr>]"
proof -
  have ok: "schema_ok adoption_db"
    by (simp add: schema_ok_def primary_keys_def foreign_keys_def adoption_db_def
        person_row_def edge_row_def)
  from getFamilyTree_flat [of adoption_db] ok
  obtain tree where "getFamilyTree adoption_db = Inr tree" by blast
  then have 1: "getFamilyTree adoption_db =
     Inr [Person.extend (person_row 1 ''Bio Parent'')
            \<lparr>parents = [], children = [person_row 3 ''Child'']\<rparr>,
          Person.extend (person_row 2 ''Adoptive Parent'')
            \<lparr>parents = [], children = [person_row 3 ''Child'']\<rparr>,
          Person.extend (person_row 3 ''Child'')
            \<lparr>parents = [person_row 1 ''Bio Parent'', person_row 2 ''Adoptive Parent''],
             children = []\<rparr>]"
    by (simp add: getFamilyTree_def annotate_def find_child_def find_parent_def adoption_db_def
        person_row_def edge_row_def)
  have ids: "id_p (person_row 1 ''M'') \<noteq> id_p (person_row 2 ''D'') \<and>
      parent_id (edge_row 1 1 2) = id_p (person_row 1 ''M'') \<and>
      child_id (edge_row 1 1 2) = id_p (person_row 2 ''D'')"
    by (simp add: person_row_def edge_row_def)
  from getFamilyTree_flat
    [where M = "person_row 1 ''M''" and D = "person_row 2 ''D''" and edge = "edge_row 1 1 2"
       and ?s1.0 = 3 and ?s2.0 = 2] ids
  have 2: "getFamilyTree \<lparr>people = [person_row 1 ''M'', person_row 2 ''D''],
                   relationships = [edge_row 1 1 2], people_seq = 3, relationships_seq = 2\<rparr> =
     Inr [Person.extend (person_row 1 ''M'') \<lparr>parents = [], children = [person_row 2 ''D'']\<rparr>,
          Person.extend (person_row 2 ''D'') \<lparr>parents = [person_row 1 ''M''], children = []\<rparr>]"
    by blast
  from ok 1 ids 2 show ?thesis by simp
qed






section \<open>Properties of the tree assembler\<close>

text \<open>The loop over the children, in terms of \<open>buildTree\<close>, as the source has it.\<close>

lemma buildChildren_Nil [simp]: "buildChildren data [] level = Some []"
  by (simp add: buildChildren.simps)

lemma buildChildren_Cons:
  "buildChildren data (child # rest) level =
    (case find (\<lambda>p. id_p p = id_p child) data of
       None \<Rightarrow> buildChildren data rest level
     | Some cwr \<Rightarrow>
         do {
           node \<leftarrow> buildTree data cwr level;
           others \<leftarrow> buildChildren data rest level;
           Some (node # others)
         })"
  by (subst buildChildren.simps) (simp add: buildTree_def split: option.splits)

lemma forest_nodes_simps [simp]:
  "forest_nodes [] = []"
  "forest_nodes (n # ns) = nodes_of n @ forest_nodes ns"
  by (simp_all add: forest_nodes_def)

lemma nodes_of_self: "n \<in> set (nodes_of n)"
  by (cases n) simp

lemma forest_nodes_roots: "set ns \<subseteq> set (forest_nodes ns)"
  by (induction ns) (use nodes_of_self in auto)

lemma in_child_edges:
  "p \<in> set data \<Longrightarrow> c \<in> set (children p) \<Longrightarrow> (id_p p, id_p c) \<in> child_edges data"
  by (auto simp: child_edges_def)

lemma finite_child_edges: "finite (child_edges data)"
  by (simp add: child_edges_def)

lemma buildChildren_Some:
  "buildChildren data cs level = Some ns \<Longrightarrow>
     map node_person ns = resolve data cs \<and>
     (\<forall>n \<in> set ns. node_level n = level) \<and>
     (\<forall>n \<in> set (forest_nodes ns). subtree_ok data n)"
proof -
  assume "buildChildren data cs level = Some ns"
  then have "buildChildren data cs level = Some ns \<and>
     map node_person ns = resolve data cs \<and>
     (\<forall>n \<in> set ns. node_level n = level) \<and>
     (\<forall>n \<in> set (forest_nodes ns). subtree_ok data n)"
  proof (induction rule: buildChildren.raw_induct [rotated, consumes 1, case_names step])
    case (step f data cs level ns)
    show ?case
    proof (cases cs)
      case Nil
      with step(2) show ?thesis by simp
    next
      case (Cons c rest)
      show ?thesis
      proof (cases "find (\<lambda>p. id_p p = id_p c) data")
        case None
        with step(2) Cons have "f data rest level = Some ns" by simp
        from step(1) [OF this] None Cons show ?thesis
          by (simp add: buildChildren_Cons)
      next
        case (Some q)
        with step(2) Cons obtain g others
          where g: "f data (children q) (level + 1) = Some g"
            and others: "f data rest level = Some others"
            and ns: "ns = TreeNode q g level # others"
          by (auto simp: bind_eq_Some_conv)
        note G = step(1) [OF g] and O = step(1) [OF others]
        have top: "subtree_ok data (TreeNode q g level)"
          using G by (simp add: subtree_ok_def buildTree_def)
        have "buildChildren data cs level = Some ns"
          using G O Some Cons ns by (simp add: buildChildren_Cons buildTree_def)
        moreover have "map node_person ns = resolve data cs"
          using O Some Cons ns by simp
        moreover have "\<forall>n \<in> set ns. node_level n = level"
          using O ns by simp
        moreover have "\<forall>n \<in> set (forest_nodes ns). subtree_ok data n"
          using G O top ns by (auto simp: forest_nodes_def)
        ultimately show ?thesis by blast
      qed
    qed
  qed
  then show ?thesis by blast
qed

lemma map_diverge_Some:
  "(\<And>x. x \<in> set xs \<Longrightarrow> f x = Some (g x)) \<Longrightarrow> map_diverge f xs = Some (map g xs)"
  by (induction xs) simp_all

lemma set_resolve: "set (resolve data cs) \<subseteq> set data"
  by (induction cs) (auto split: option.splits dest: find_id_in)

lemma nodes_of_trans: "m \<in> set (nodes_of n) \<Longrightarrow> set (nodes_of m) \<subseteq> set (nodes_of n)"
proof (induction n)
  case (TreeNode p cs l)
  then show ?case by fastforce
qed

lemma forest_nodes_children:
  assumes "n \<in> set (forest_nodes F)" and "k \<in> set (node_children n)"
  shows "k \<in> set (forest_nodes F)"
proof -
  from assms(1) obtain t where t: "t \<in> set F" "n \<in> set (nodes_of t)"
    by (auto simp: forest_nodes_def)
  have "k \<in> set (nodes_of n)"
    using assms(2) nodes_of_self [of k] by (cases n) auto
  with nodes_of_trans [OF t(2)] t(1) show ?thesis
    by (auto simp: forest_nodes_def)
qed

lemma nodes_in_data:
  "node_person n \<in> set data \<Longrightarrow> (\<forall>m \<in> set (nodes_of n). subtree_ok data m) \<Longrightarrow>
   (\<forall>m \<in> set (nodes_of n). node_person m \<in> set data)"
proof (induction n)
  case (TreeNode p cs l)
  have ok: "subtree_ok data (TreeNode p cs l)" using TreeNode.prems(2) by simp
  have "node_person m \<in> set data" if k: "k \<in> set cs" and m: "m \<in> set (nodes_of k)" for k m
  proof -
    from ok have "map node_person cs = resolve data (children p)"
      by (simp add: subtree_ok_def)
    then have "node_person k \<in> set (resolve data (children p))"
      using k by (metis image_eqI list.set_map)
    then have 1: "node_person k \<in> set data" using set_resolve by blast
    have 2: "\<forall>m \<in> set (nodes_of k). subtree_ok data m"
      using TreeNode.prems(2) k by auto
    from TreeNode.IH [OF k 1 2] m show ?thesis by blast
  qed
  with TreeNode.prems(1) show ?case by auto
qed

lemma in_resolve:
  "c \<in> set cs \<Longrightarrow> find (\<lambda>q. id_p q = id_p c) data = Some x \<Longrightarrow> x \<in> set (resolve data cs)"
  by (induction cs) (auto split: option.splits)

text \<open>
  Where the calls return. A call on a person from which a cycle of the child relation
  can be reached never returns; a call on any other person of the input returns, by
  well-founded induction on the child relation below the people that reach no cycle.
\<close>

lemma child_rel_iff:
  "((p, q) \<in> child_rel data) = (p \<in> set data \<and> q \<in> set (resolve data (children p)))"
  by (auto simp: child_rel_def)

lemma finite_child_rel: "finite (child_rel data)"
  by (simp add: child_rel_def)

lemma resolve_origin:
  "q \<in> set (resolve data cs) \<Longrightarrow> \<exists>c \<in> set cs. find (\<lambda>x. id_p x = id_p c) data = Some q"
  by (induction cs) (auto split: option.splits)

lemma cycle_reachable_step:
  assumes "cycle_reachable data p"
  shows "\<exists>z. (p, z) \<in> child_rel data \<and> cycle_reachable data z"
proof -
  from assms obtain q where pq: "(p, q) \<in> (child_rel data)\<^sup>*"
    and qq: "(q, q) \<in> (child_rel data)\<^sup>+" by (auto simp: cycle_reachable_def)
  from pq show ?thesis
  proof (cases rule: converse_rtranclE)
    case base
    from qq obtain z where z: "(q, z) \<in> child_rel data" "(z, q) \<in> (child_rel data)\<^sup>*"
      by (meson tranclD)
    then have "cycle_reachable data z" using qq by (auto simp: cycle_reachable_def)
    with z base show ?thesis by blast
  next
    case (step z)
    then have "cycle_reachable data z" using qq by (auto simp: cycle_reachable_def)
    with step show ?thesis by blast
  qed
qed

lemma cycle_reachable_back:
  "(p, q) \<in> child_rel data \<Longrightarrow> cycle_reachable data q \<Longrightarrow> cycle_reachable data p"
  unfolding cycle_reachable_def by (meson converse_rtrancl_into_rtrancl)

lemma buildChildren_no_cycle:
  "buildChildren data cs level = Some ns \<Longrightarrow>
   \<forall>q \<in> set (resolve data cs). \<not> cycle_reachable data q"
proof (induction rule: buildChildren.raw_induct [rotated, consumes 1, case_names step])
  case (step f data cs level ns)
  show ?case
  proof (cases cs)
    case Nil
    then show ?thesis by simp
  next
    case (Cons c rest)
    let ?found = "find (\<lambda>p. id_p p = id_p c) data"
    show ?thesis
    proof (cases ?found)
      case None
      with step(2) Cons have "f data rest level = Some ns" by simp
      from step(1) [OF this] None Cons show ?thesis by simp
    next
      case (Some q)
      with step(2) Cons obtain g others
        where g: "f data (children q) (level + 1) = Some g"
          and others: "f data rest level = Some others"
        by (auto simp: bind_eq_Some_conv)
      have "\<not> cycle_reachable data q"
      proof
        assume "cycle_reachable data q"
        then obtain z where "(q, z) \<in> child_rel data" "cycle_reachable data z"
          using cycle_reachable_step by blast
        with step(1) [OF g] show False by (simp add: child_rel_iff)
      qed
      with step(1) [OF others] Some Cons show ?thesis by simp
    qed
  qed
qed

lemma buildTree_diverges:
  assumes "cycle_reachable data p"
  shows "buildTree data p level = None"
proof -
  let ?r = "buildChildren data (children p) (level + 1)"
  have "?r = None"
  proof (cases ?r)
    case None
    then show ?thesis .
  next
    case (Some ns)
    from cycle_reachable_step [OF assms] obtain z
      where "(p, z) \<in> child_rel data" "cycle_reachable data z" by blast
    with buildChildren_no_cycle [OF Some] show ?thesis by (simp add: child_rel_iff)
  qed
  then show ?thesis by (simp add: buildTree_def)
qed

lemma buildChildren_returns:
  assumes p: "p \<in> set data" and safe: "\<not> cycle_reachable data p"
  shows "\<exists>ns. buildChildren data (children p) level = Some ns"
proof -
  define r where "r = {(q, p). (p, q) \<in> child_rel data \<and> \<not> cycle_reachable data p}"
  have sub: "r \<subseteq> (child_rel data)\<inverse>" by (auto simp: r_def)
  have "finite r" using sub finite_child_rel [of data] by (simp add: finite_subset)
  moreover have "acyclic r"
  proof (rule acyclicI, intro allI notI)
    fix x assume xx: "(x, x) \<in> r\<^sup>+"
    then obtain y where "(y, x) \<in> r" by (meson tranclE)
    then have 1: "\<not> cycle_reachable data x" by (simp add: r_def)
    from xx sub have "(x, x) \<in> ((child_rel data)\<inverse>)\<^sup>+" by (meson trancl_mono)
    then have "(x, x) \<in> (child_rel data)\<^sup>+" by (simp add: trancl_converse)
    then have "cycle_reachable data x" by (auto simp: cycle_reachable_def)
    with 1 show False ..
  qed
  ultimately have wf: "wf r" by (rule finite_acyclic_wf)
  have "p \<in> set data \<longrightarrow> \<not> cycle_reachable data p \<longrightarrow>
          (\<forall>level. \<exists>ns. buildChildren data (children p) level = Some ns)" for p
    using wf
  proof (induction p rule: wf_induct_rule)
    case (less p)
    show ?case
    proof (intro allI impI)
      fix level assume p: "p \<in> set data" and safe: "\<not> cycle_reachable data p"
      have "set cs \<subseteq> set (children p) \<Longrightarrow> \<exists>ns. buildChildren data cs l = Some ns" for cs l
      proof (induction cs)
        case Nil
        show ?case by simp
      next
        case (Cons c rest)
        then obtain others where others: "buildChildren data rest l = Some others"
          by auto
        let ?found = "find (\<lambda>q. id_p q = id_p c) data"
        show ?case
        proof (cases ?found)
          case None
          with others show ?thesis by (subst buildChildren.simps) simp
        next
          case (Some q)
          then have q: "q \<in> set data" using find_id_in by blast
          from Cons.prems have "c \<in> set (children p)" by simp
          from this Some have "q \<in> set (resolve data (children p))"
            by (rule in_resolve)
          with p have pq: "(p, q) \<in> child_rel data" by (simp add: child_rel_iff)
          with safe have qsafe: "\<not> cycle_reachable data q"
            using cycle_reachable_back by blast
          from pq safe have "(q, p) \<in> r" by (simp add: r_def)
          from less.IH [OF this] q qsafe obtain g
            where "buildChildren data (children q) (l + 1) = Some g" by blast
          with others Some show ?thesis by (subst buildChildren.simps) simp
        qed
      qed
      then show "\<exists>ns. buildChildren data (children p) level = Some ns" by blast
    qed
  qed
  with p safe show ?thesis by blast
qed

lemma map_diverge_None: "(map_diverge f xs = None) = (\<exists>x \<in> set xs. f x = None)"
  by (induction xs) (auto simp: bind_eq_None_conv)

lemma treeStructure_None:
  "(treeStructure data = None) =
     (\<exists>p \<in> set data. parents p = [] \<and> cycle_reachable data p)"
proof -
  have "(buildTree data p 0 = None) = cycle_reachable data p" if "p \<in> set data" for p
  proof
    assume none: "buildTree data p 0 = None"
    show "cycle_reachable data p"
    proof (rule ccontr)
      assume "\<not> cycle_reachable data p"
      from buildChildren_returns [OF that this, of "0 + 1"] none show False
        by (auto simp: buildTree_def)
    qed
  next
    assume "cycle_reachable data p"
    then show "buildTree data p 0 = None" by (rule buildTree_diverges)
  qed
  then show ?thesis
    by (cases data) (auto simp: treeStructure_def map_diverge_None)
qed

lemma child_rel_edges: "(p, q) \<in> child_rel data \<Longrightarrow> (id_p p, id_p q) \<in> child_edges data"
proof -
  assume "(p, q) \<in> child_rel data"
  then have p: "p \<in> set data" and "q \<in> set (resolve data (children p))"
    by (simp_all add: child_rel_iff)
  then obtain c where c: "c \<in> set (children p)" "find (\<lambda>x. id_p x = id_p c) data = Some q"
    using resolve_origin by blast
  then have "id_p q = id_p c" using find_id_in by blast
  with in_child_edges [OF p c(1)] show ?thesis by simp
qed

lemma child_rel_trancl_edges:
  "(p, q) \<in> (child_rel data)\<^sup>+ \<Longrightarrow> (id_p p, id_p q) \<in> (child_edges data)\<^sup>+"
  by (induction rule: trancl_induct) (auto dest: child_rel_edges intro: trancl_into_trancl)

lemma acyclic_no_cycle: "acyclic (child_edges data) \<Longrightarrow> \<not> cycle_reachable data p"
  unfolding cycle_reachable_def acyclic_def using child_rel_trancl_edges by blast


lemma acyclic_increasing:
  fixes r :: "(int \<times> int) set"
  assumes "\<And>a b. (a, b) \<in> r \<Longrightarrow> a < b"
  shows "acyclic r"
proof -
  have "(a, b) \<in> r\<^sup>+ \<Longrightarrow> a < b" for a b
    by (induction rule: trancl_induct) (auto dest: assms)
  then show ?thesis by (auto simp: acyclic_def)
qed

lemma cyclic_family_tree: "getFamilyTree cyclic_db = Inr cyclic_data"
  by (simp add: getFamilyTree_def annotate_def find_child_def find_parent_def cyclic_db_def
      cyclic_data_def cyclic_R_def cyclic_A_def cyclic_B_def cyclic_C_def
      person_row_def edge_row_def)

lemma cyclic_last_edge_accepted:
  "createRelationship (cyclic_db\<lparr>relationships := butlast (relationships cyclic_db),
       relationships_seq := 4\<rparr>) 0 \<lparr>in_parent_id = 4, in_child_id = 2\<rparr> =
     Inr (edge_row 4 4 2, cyclic_db)"
  by (simp add: createRelationship_def Let_def cyclic_db_def person_row_def edge_row_def)

lemma cyclic_child_rel:
  "(cyclic_R, cyclic_A) \<in> child_rel cyclic_data"
  "(cyclic_A, cyclic_B) \<in> child_rel cyclic_data"
  "(cyclic_B, cyclic_C) \<in> child_rel cyclic_data"
  "(cyclic_C, cyclic_A) \<in> child_rel cyclic_data"
  by (simp_all add: child_rel_iff cyclic_data_def cyclic_R_def cyclic_A_def cyclic_B_def
      cyclic_C_def person_row_def Person.defs)

lemma cyclic_root_reaches_cycle: "cycle_reachable cyclic_data cyclic_R"
proof -
  have "(cyclic_R, cyclic_A) \<in> (child_rel cyclic_data)\<^sup>*"
    using cyclic_child_rel(1) by (rule r_into_rtrancl)
  moreover have "(cyclic_A, cyclic_A) \<in> (child_rel cyclic_data)\<^sup>+"
    using cyclic_child_rel(2-4) by (meson trancl.simps)
  ultimately show ?thesis unfolding cycle_reachable_def by blast
qed

text \<open>
  C2 (as amended). The tree assembler has no guard against revisiting a person on the
  current path. It returns a forest exactly when no cycle of the child relation can be
  reached from a root (a person with no parents); in particular it returns a forest
  for every input whose edges are acyclic. When a cycle can be reached from a root, the
  recursion never returns.
\<close>

theorem treeStructure_termination:
  "(treeStructure data = None) =
     (\<exists>p \<in> set data. parents p = [] \<and> cycle_reachable data p)
   \<and> (acyclic (child_edges data) \<longrightarrow> (\<exists>forest. treeStructure data = Some forest))"
proof -
  have "\<exists>forest. treeStructure data = Some forest" if "acyclic (child_edges data)"
  proof -
    from that have "treeStructure data \<noteq> None"
      unfolding treeStructure_None using acyclic_no_cycle by blast
    then show ?thesis by auto
  qed
  with treeStructure_None show ?thesis by blast
qed

theorem treeStructure_termination_witness:
  "acyclic (child_edges family_data) \<and>
   treeStructure family_data =
     Some [TreeNode (Person.extend (person_row 1 ''M'')
                      \<lparr>parents = [], children = [person_row 2 ''D'']\<rparr>)
             [TreeNode (Person.extend (person_row 2 ''D'')
                          \<lparr>parents = [person_row 1 ''M''], children = []\<rparr>) [] 1] 0,
           TreeNode (Person.extend (person_row 3 ''F'') \<lparr>parents = [], children = []\<rparr>) [] 0]"
proof -
  have acyc: "acyclic (child_edges family_data)"
    by (rule acyclic_increasing)
      (auto simp: child_edges_def family_data_def person_row_def Person.defs)
  with treeStructure_termination [of family_data]
  obtain forest where "treeStructure family_data = Some forest" by blast
  then have "treeStructure family_data =
     Some [TreeNode (Person.extend (person_row 1 ''M'')
                      \<lparr>parents = [], children = [person_row 2 ''D'']\<rparr>)
             [TreeNode (Person.extend (person_row 2 ''D'')
                          \<lparr>parents = [person_row 1 ''M''], children = []\<rparr>) [] 1] 0,
           TreeNode (Person.extend (person_row 3 ''F'') \<lparr>parents = [], children = []\<rparr>) [] 0]"
    by (simp add: treeStructure_def buildTree_def buildChildren_Cons family_data_def
        person_row_def Person.defs)
  with acyc show ?thesis by simp
qed

text \<open>
  The claim C2 as it was stated fails on a cycle of three edges below a root, each of
  which the validator accepts: \<open>getFamilyTree\<close> returns \<open>cyclic_data\<close> for the database,
  the root R has no parents and reaches the cycle A, B, C, and the assembler never
  returns.
\<close>

theorem treeStructure_cycle_counterexample:
  "createRelationship (cyclic_db\<lparr>relationships := butlast (relationships cyclic_db),
       relationships_seq := 4\<rparr>) 0 \<lparr>in_parent_id = 4, in_child_id = 2\<rparr> =
     Inr (edge_row 4 4 2, cyclic_db) \<and>
   getFamilyTree cyclic_db = Inr cyclic_data \<and>
   cyclic_R \<in> set cyclic_data \<and> parents cyclic_R = [] \<and>
   cycle_reachable cyclic_data cyclic_R \<and>
   treeStructure cyclic_data = None"
proof -
  have root: "cyclic_R \<in> set cyclic_data" "parents cyclic_R = []"
    by (simp_all add: cyclic_data_def cyclic_R_def Person.defs)
  with cyclic_root_reaches_cycle have "treeStructure cyclic_data = None"
    unfolding treeStructure_None by blast
  with cyclic_last_edge_accepted cyclic_family_tree root cyclic_root_reaches_cycle
  show ?thesis by simp
qed

lemma built_children:
  assumes "acyclic (child_edges data)" and "p \<in> set data"
  shows "buildChildren data (children p) 1 = Some (built_children data p)"
proof -
  from assms(1) have "\<not> cycle_reachable data p" by (rule acyclic_no_cycle)
  from buildChildren_returns [OF assms(2) this, of 1]
  obtain ns where "buildChildren data (children p) 1 = Some ns" by blast
  then show ?thesis by (simp add: built_children_def)
qed

lemma root_tree:
  assumes "acyclic (child_edges data)" and "p \<in> set data"
  shows "buildTree data p 0 = Some (TreeNode p (built_children data p) 0)"
  using built_children [OF assms] by (simp add: buildTree_def)

lemma root_tree_nodes:
  assumes acyc: "acyclic (child_edges data)" and p: "p \<in> set data"
    and n: "n \<in> set (nodes_of (TreeNode p (built_children data p) 0))"
  shows "subtree_ok data n \<and> node_person n \<in> set data"
proof -
  let ?t = "TreeNode p (built_children data p) 0"
  note B = buildChildren_Some [OF built_children [OF acyc p]]
  have top: "subtree_ok data ?t"
    using B root_tree [OF acyc p] by (simp add: subtree_ok_def)
  have all: "\<forall>m \<in> set (nodes_of ?t). subtree_ok data m"
    using B top by (simp add: forest_nodes_def)
  have "\<forall>m \<in> set (nodes_of ?t). node_person m \<in> set data"
    by (rule nodes_in_data) (use p all in simp_all)
  with all n show ?thesis by blast
qed

lemma treeStructure_acyclic:
  assumes acyc: "acyclic (child_edges data)"
  shows "\<exists>forest. treeStructure data = Some forest \<and>
     map node_person forest = filter (\<lambda>p. parents p = []) data \<and>
     (\<forall>n \<in> set forest. node_level n = 0) \<and>
     (\<forall>n \<in> set (forest_nodes forest). subtree_ok data n \<and> node_person n \<in> set data)"
proof -
  let ?roots = "filter (\<lambda>p. parents p = []) data"
  let ?g = "\<lambda>p. TreeNode p (built_children data p) 0"
  let ?forest = "map ?g ?roots"
  have "map_diverge (\<lambda>person. buildTree data person 0) ?roots = Some ?forest"
    by (rule map_diverge_Some) (simp add: root_tree [OF acyc])
  then have res: "treeStructure data = Some ?forest"
    by (cases data) (simp_all add: treeStructure_def)
  have persons: "map node_person ?forest = ?roots"
    by (simp add: o_def)
  have levels: "\<forall>n \<in> set ?forest. node_level n = 0" by simp
  have nodes: "subtree_ok data n \<and> node_person n \<in> set data"
    if n: "n \<in> set (forest_nodes ?forest)" for n
  proof -
    from n obtain p where p: "p \<in> set ?roots" and np: "n \<in> set (nodes_of (?g p))"
      by (auto simp: forest_nodes_def)
    from p have pd: "p \<in> set data" by simp
    from acyc pd np show ?thesis by (rule root_tree_nodes)
  qed
  from res persons levels nodes show ?thesis by blast
qed

lemma everyone_appears:
  assumes acyc: "acyclic (child_edges data)"
    and d: "distinct (map id_p data)"
    and consistent: "\<And>x. x \<in> set data \<Longrightarrow> parents x \<noteq> [] \<Longrightarrow>
        \<exists>p \<in> set data. id_p x \<in> id_p ` set (children p)"
    and roots: "map node_person forest = filter (\<lambda>p. parents p = []) data"
    and ok: "\<And>n. n \<in> set (forest_nodes forest) \<Longrightarrow> subtree_ok data n"
  shows "x \<in> set data \<Longrightarrow> x \<in> node_person ` set (forest_nodes forest)"
proof -
  have wf: "wf (child_edges data)"
    using finite_child_edges acyc by (rule finite_acyclic_wf)
  have "\<forall>x. x \<in> set data \<longrightarrow> id_p x = i \<longrightarrow> x \<in> node_person ` set (forest_nodes forest)" for i
    using wf
  proof (induction i rule: wf_induct_rule)
    case (less i)
    show ?case
    proof (intro allI impI)
      fix x assume x: "x \<in> set data" "id_p x = i"
      show "x \<in> node_person ` set (forest_nodes forest)"
      proof (cases "parents x = []")
        case True
        with x have "x \<in> set (map node_person forest)" unfolding roots by simp
        then show ?thesis using forest_nodes_roots [of forest] by auto
      next
        case False
        from consistent [OF x(1) False] obtain p c
          where p: "p \<in> set data" and c: "c \<in> set (children p)" "id_p c = id_p x"
          by (metis imageE)
        from in_child_edges [OF p c(1)] c(2) x(2) have "(id_p p, i) \<in> child_edges data"
          by simp
        from less.IH [OF this] p obtain n
          where n: "n \<in> set (forest_nodes forest)" "node_person n = p" by auto
        from d x(1) have "find (\<lambda>q. id_p q = id_p x) data = Some x" by (rule find_id_Some)
        with c have "x \<in> set (resolve data (children p))" by (simp add: in_resolve)
        with ok [OF n(1)] n(2) have "x \<in> set (map node_person (node_children n))"
          by (simp add: subtree_ok_def)
        then obtain k where k: "k \<in> set (node_children n)" "node_person k = x" by auto
        from forest_nodes_children [OF n(1) k(1)] k(2) show ?thesis by auto
      qed
    qed
  qed
  then show "x \<in> set data \<Longrightarrow> x \<in> node_person ` set (forest_nodes forest)" by blast
qed

lemma parents_annotated_Nil: "(parents (annotated db p) = []) = (\<not> has_parent db (id_p p))"
  by (auto simp: annotated_def parents_extend has_parent_def filter_empty_conv)

lemma children_annotated_ids:
  assumes fk: "foreign_keys db"
  shows "map id_p (children (annotated db p)) =
     map child_id (filter (\<lambda>rel. parent_id rel = id_p p) (relationships db))"
proof -
  have "id_p (the (find (\<lambda>q. id_p q = child_id rel) (people db))) = child_id rel"
    if "rel \<in> set (relationships db)" for rel
    using fk that the_find_id_p [of "child_id rel" "people db"] by (simp add: foreign_keys_def)
  then show ?thesis
    by (simp add: annotated_def children_extend)
qed

lemma children_annotated_people:
  assumes fk: "foreign_keys db"
  shows "set (children (annotated db p)) \<subseteq> set (people db)"
proof -
  have "the (find (\<lambda>q. id_p q = child_id rel) (people db)) \<in> set (people db)"
    if "rel \<in> set (relationships db)" for rel
    using fk that the_find_id_p [of "child_id rel" "people db"] by (simp add: foreign_keys_def)
  then show ?thesis
    by (auto simp: annotated_def children_extend)
qed

lemma child_edges_annotated:
  assumes fk: "foreign_keys db"
  shows "child_edges (map (annotated db) (people db)) \<subseteq> edge_set db"
proof
  fix e assume "e \<in> child_edges (map (annotated db) (people db))"
  then obtain p c where p: "p \<in> set (people db)" and c: "c \<in> set (children (annotated db p))"
    and e: "e = (id_p p, id_p c)"
    by (auto simp: child_edges_def)
  from c have "id_p c \<in> set (map id_p (children (annotated db p)))" by simp
  then have "id_p c \<in> set (map child_id (filter (\<lambda>rel. parent_id rel = id_p p) (relationships db)))"
    unfolding children_annotated_ids [OF fk] .
  then show "e \<in> edge_set db" unfolding e edge_set_def by force
qed

lemma find_annotated:
  "distinct (map id_p (people db)) \<Longrightarrow> c \<in> set (people db) \<Longrightarrow>
   find (\<lambda>q. id_p q = id_p c) (map (annotated db) (people db)) = Some (annotated db c)"
proof -
  assume d: "distinct (map id_p (people db))" and c: "c \<in> set (people db)"
  have "distinct (map id_p (map (annotated db) (people db)))"
    using d by (simp add: o_def)
  moreover have "annotated db c \<in> set (map (annotated db) (people db))" using c by simp
  ultimately have "find (\<lambda>q. id_p q = id_p (annotated db c)) (map (annotated db) (people db)) =
      Some (annotated db c)" by (rule find_id_Some)
  then show ?thesis by simp
qed

lemma resolve_annotated:
  "distinct (map id_p (people db)) \<Longrightarrow> set cs \<subseteq> set (people db) \<Longrightarrow>
   resolve (map (annotated db) (people db)) cs = map (annotated db) cs"
  by (induction cs) (simp_all add: find_annotated)

lemma count_list_distinct: "distinct xs \<Longrightarrow> x \<in> set xs \<Longrightarrow> count_list xs x = 1"
  by (induction xs) (auto simp: count_list_0_iff)

lemma annotated_consistent:
  assumes fk: "foreign_keys db" and x: "x \<in> set (map (annotated db) (people db))"
    and par: "parents x \<noteq> []"
  shows "\<exists>p \<in> set (map (annotated db) (people db)). id_p x \<in> id_p ` set (children p)"
proof -
  from x obtain q where q: "q \<in> set (people db)" "x = annotated db q" by auto
  with par have "has_parent db (id_p q)" using parents_annotated_Nil by blast
  then obtain r where r: "r \<in> set (relationships db)" "child_id r = id_p q"
    by (auto simp: has_parent_def)
  with fk obtain p where p: "p \<in> set (people db)" "id_p p = parent_id r"
    by (auto simp: foreign_keys_def)
  from r p have "id_p q \<in> set (map child_id (filter (\<lambda>rel. parent_id rel = id_p p) (relationships db)))"
    by force
  then have "id_p q \<in> set (map id_p (children (annotated db p)))"
    unfolding children_annotated_ids [OF fk] .
  with p q show ?thesis by auto
qed


text \<open>
  C3. For every database that satisfies the constraints of the schema and whose edges
  are acyclic, the assembler, run on the list that \<open>getFamilyTree\<close> returns, returns a
  forest. Its roots are, in order, the people with no parent edge, each exactly once and
  at level 0. Every person is the person of some node. Every node is the whole tree of
  its person (what \<open>buildTree\<close> returns for that person at that level), and its child nodes
  are, in order, one for each edge from its person, at the next level: a person with
  several parents is a child node under every node of each of its parents, each with a
  subtree of its own.
\<close>

theorem tree_assembler_forest:
  "schema_ok db \<and> acyclic (edge_set db) \<longrightarrow>
    (\<exists>data forest. getFamilyTree db = Inr data \<and> treeStructure data = Some forest \<and>
       map (Person.truncate \<circ> node_person) forest =
         filter (\<lambda>p. \<not> has_parent db (id_p p)) (people db) \<and>
       (\<forall>p \<in> set (people db). \<not> has_parent db (id_p p) \<longrightarrow>
          count_list (map (Person.truncate \<circ> node_person) forest) p = 1) \<and>
       (\<forall>n \<in> set forest. node_level n = 0) \<and>
       (\<forall>p \<in> set (people db). \<exists>n \<in> set (forest_nodes forest). Person.truncate (node_person n) = p) \<and>
       (\<forall>n \<in> set (forest_nodes forest).
          node_person n \<in> set data \<and> subtree_ok data n \<and>
          map (id_p \<circ> node_person) (node_children n) =
            map child_id (filter (\<lambda>r. parent_id r = id_p (node_person n)) (relationships db))) \<and>
       (\<forall>n \<in> set (forest_nodes forest). \<forall>r \<in> set (relationships db).
          parent_id r = id_p (node_person n) \<longrightarrow>
          (\<exists>k \<in> set (node_children n).
             id_p (node_person k) = child_id r \<and> node_level k = node_level n + 1)))"
proof (intro impI, elim conjE)
  assume ok: "schema_ok db" and acyc: "acyclic (edge_set db)"
  let ?ps = "people db" and ?rs = "relationships db"
  define data where "data = map (annotated db) ?ps"
  from ok have fk: "foreign_keys db" and d: "distinct (map id_p ?ps)"
    by (simp_all add: schema_ok_def primary_keys_def)
  have tree: "getFamilyTree db = Inr data"
    unfolding data_def using fk by (rule getFamilyTree_annotated)
  have "child_edges data \<subseteq> edge_set db"
    unfolding data_def using fk by (rule child_edges_annotated)
  with acyc have acyc': "acyclic (child_edges data)" by (rule acyclic_subset)
  from treeStructure_acyclic [OF acyc'] obtain forest
    where res: "treeStructure data = Some forest"
      and roots: "map node_person forest = filter (\<lambda>p. parents p = []) data"
      and levels: "\<forall>n \<in> set forest. node_level n = 0"
      and nodes: "\<And>n. n \<in> set (forest_nodes forest) \<Longrightarrow> subtree_ok data n \<and> node_person n \<in> set data"
    by blast
  have "map (Person.truncate \<circ> node_person) forest = map Person.truncate (map node_person forest)"
    by simp
  also have "\<dots> = map Person.truncate (map (annotated db)
      (filter (\<lambda>p. parents (annotated db p) = []) ?ps))"
    unfolding roots data_def by (simp add: filter_map o_def)
  also have "\<dots> = filter (\<lambda>p. \<not> has_parent db (id_p p)) ?ps"
    by (simp add: o_def parents_annotated_Nil)
  finally have c1: "map (Person.truncate \<circ> node_person) forest =
      filter (\<lambda>p. \<not> has_parent db (id_p p)) ?ps" .
  have c2: "\<forall>p \<in> set ?ps. \<not> has_parent db (id_p p) \<longrightarrow>
          count_list (map (Person.truncate \<circ> node_person) forest) p = 1"
  proof (intro ballI impI)
    fix p assume p: "p \<in> set ?ps" "\<not> has_parent db (id_p p)"
    from d have "distinct ?ps" by (simp add: distinct_map)
    then have "distinct (filter (\<lambda>p. \<not> has_parent db (id_p p)) ?ps)" by simp
    moreover from p have "p \<in> set (filter (\<lambda>p. \<not> has_parent db (id_p p)) ?ps)" by simp
    ultimately show "count_list (map (Person.truncate \<circ> node_person) forest) p = 1"
      unfolding c1 by (rule count_list_distinct)
  qed
  have dd: "distinct (map id_p data)" unfolding data_def using d by (simp add: o_def)
  have cons: "\<exists>p \<in> set data. id_p x \<in> id_p ` set (children p)"
    if "x \<in> set data" "parents x \<noteq> []" for x
    using that unfolding data_def by (rule annotated_consistent [OF fk])
  have oks: "subtree_ok data n" if "n \<in> set (forest_nodes forest)" for n
    using nodes [OF that] ..
  have c4: "\<forall>p \<in> set ?ps. \<exists>n \<in> set (forest_nodes forest). Person.truncate (node_person n) = p"
  proof
    fix p assume "p \<in> set ?ps"
    then have "annotated db p \<in> set data" by (simp add: data_def)
    then have "annotated db p \<in> node_person ` set (forest_nodes forest)"
      using cons oks by (intro everyone_appears [OF acyc' dd _ roots]) blast+
    then obtain n where "n \<in> set (forest_nodes forest)" "node_person n = annotated db p"
      by auto
    then show "\<exists>n \<in> set (forest_nodes forest). Person.truncate (node_person n) = p"
      by (intro bexI [of _ n]) simp_all
  qed
  have kids: "map (id_p \<circ> node_person) (node_children n) =
            map child_id (filter (\<lambda>r. parent_id r = id_p (node_person n)) ?rs)"
    if n: "n \<in> set (forest_nodes forest)" for n
  proof -
    from nodes [OF n] obtain p where p: "p \<in> set ?ps" "node_person n = annotated db p"
      by (auto simp: data_def)
    from nodes [OF n] p have "map node_person (node_children n) =
        resolve data (children (annotated db p))" by (simp add: subtree_ok_def)
    also have "\<dots> = map (annotated db) (children (annotated db p))"
      unfolding data_def using d children_annotated_people [OF fk] by (rule resolve_annotated)
    finally have "map id_p (map node_person (node_children n)) =
        map id_p (map (annotated db) (children (annotated db p)))"
      by (rule arg_cong)
    then have "map (id_p \<circ> node_person) (node_children n) =
        map id_p (children (annotated db p))"
      by (simp add: o_def)
    then show ?thesis unfolding children_annotated_ids [OF fk] p(2) by simp
  qed
  have c6: "\<forall>n \<in> set (forest_nodes forest). \<forall>r \<in> set ?rs.
          parent_id r = id_p (node_person n) \<longrightarrow>
          (\<exists>k \<in> set (node_children n).
             id_p (node_person k) = child_id r \<and> node_level k = node_level n + 1)"
  proof (intro ballI impI)
    fix n r assume n: "n \<in> set (forest_nodes forest)" and r: "r \<in> set ?rs"
      "parent_id r = id_p (node_person n)"
    then have "child_id r \<in> set (map child_id
        (filter (\<lambda>r. parent_id r = id_p (node_person n)) ?rs))" by simp
    then have "child_id r \<in> set (map (id_p \<circ> node_person) (node_children n))"
      unfolding kids [OF n] .
    then obtain k where k: "k \<in> set (node_children n)" "id_p (node_person k) = child_id r"
      by auto
    moreover from nodes [OF n] k(1) have "node_level k = node_level n + 1"
      by (simp add: subtree_ok_def)
    ultimately show "\<exists>k \<in> set (node_children n).
             id_p (node_person k) = child_id r \<and> node_level k = node_level n + 1" by blast
  qed
  have c5: "\<forall>n \<in> set (forest_nodes forest).
          node_person n \<in> set data \<and> subtree_ok data n \<and>
          map (id_p \<circ> node_person) (node_children n) =
            map child_id (filter (\<lambda>r. parent_id r = id_p (node_person n)) ?rs)"
    using nodes kids by blast
  show "\<exists>data forest. getFamilyTree db = Inr data \<and> treeStructure data = Some forest \<and>
       map (Person.truncate \<circ> node_person) forest =
         filter (\<lambda>p. \<not> has_parent db (id_p p)) (people db) \<and>
       (\<forall>p \<in> set (people db). \<not> has_parent db (id_p p) \<longrightarrow>
          count_list (map (Person.truncate \<circ> node_person) forest) p = 1) \<and>
       (\<forall>n \<in> set forest. node_level n = 0) \<and>
       (\<forall>p \<in> set (people db). \<exists>n \<in> set (forest_nodes forest). Person.truncate (node_person n) = p) \<and>
       (\<forall>n \<in> set (forest_nodes forest).
          node_person n \<in> set data \<and> subtree_ok data n \<and>
          map (id_p \<circ> node_person) (node_children n) =
            map child_id (filter (\<lambda>r. parent_id r = id_p (node_person n)) (relationships db))) \<and>
       (\<forall>n \<in> set (forest_nodes forest). \<forall>r \<in> set (relationships db).
          parent_id r = id_p (node_person n) \<longrightarrow>
          (\<exists>k \<in> set (node_children n).
             id_p (node_person k) = child_id r \<and> node_level k = node_level n + 1))"
    by (intro exI [of _ data] exI [of _ forest] conjI tree res c1 c2 levels c4 c5 c6)
qed


theorem tree_assembler_forest_witness:
  "schema_ok adoption_db \<and> acyclic (edge_set adoption_db) \<and>
   getFamilyTree adoption_db = Inr adoption_data \<and>
   treeStructure adoption_data =
     Some [TreeNode (Person.extend (person_row 1 ''Bio Parent'')
                      \<lparr>parents = [], children = [person_row 3 ''Child'']\<rparr>)
             [TreeNode (Person.extend (person_row 3 ''Child'')
                \<lparr>parents = [person_row 1 ''Bio Parent'', person_row 2 ''Adoptive Parent''],
                 children = []\<rparr>) [] 1] 0,
           TreeNode (Person.extend (person_row 2 ''Adoptive Parent'')
                      \<lparr>parents = [], children = [person_row 3 ''Child'']\<rparr>)
             [TreeNode (Person.extend (person_row 3 ''Child'')
                \<lparr>parents = [person_row 1 ''Bio Parent'', person_row 2 ''Adoptive Parent''],
                 children = []\<rparr>) [] 1] 0]"
proof -
  have ok: "schema_ok adoption_db"
    by (simp add: schema_ok_def primary_keys_def foreign_keys_def adoption_db_def
        person_row_def edge_row_def)
  have acyc: "acyclic (edge_set adoption_db)"
    by (rule acyclic_increasing) (auto simp: edge_set_def adoption_db_def edge_row_def)
  from tree_assembler_forest [of adoption_db] ok acyc
  obtain data forest
    where "getFamilyTree adoption_db = Inr data" and "treeStructure data = Some forest"
    by blast
  then have 1: "getFamilyTree adoption_db = Inr adoption_data"
    by (simp add: getFamilyTree_def annotate_def find_child_def find_parent_def adoption_db_def
        adoption_data_def person_row_def edge_row_def)
  have 2: "treeStructure adoption_data =
     Some [TreeNode (Person.extend (person_row 1 ''Bio Parent'')
                      \<lparr>parents = [], children = [person_row 3 ''Child'']\<rparr>)
             [TreeNode (Person.extend (person_row 3 ''Child'')
                \<lparr>parents = [person_row 1 ''Bio Parent'', person_row 2 ''Adoptive Parent''],
                 children = []\<rparr>) [] 1] 0,
           TreeNode (Person.extend (person_row 2 ''Adoptive Parent'')
                      \<lparr>parents = [], children = [person_row 3 ''Child'']\<rparr>)
             [TreeNode (Person.extend (person_row 3 ''Child'')
                \<lparr>parents = [person_row 1 ''Bio Parent'', person_row 2 ''Adoptive Parent''],
                 children = []\<rparr>) [] 1] 0]"
    by (simp add: treeStructure_def buildTree_def buildChildren_Cons adoption_data_def
        person_row_def Person.defs)
  from ok acyc 1 2 show ?thesis by simp
qed

end
